theory Spec2Isabelle
  imports Complex_Main
begin

section \<open>Tensors\<close>

text \<open>
  The functions of \<^verbatim>\<open>utils.py\<close> transform dense arrays. A tensor is modelled as the
  array library stores it: a shape (the list of dimension sizes) and the row-major flat
  buffer of its elements. The third field abstracts automatic differentiation: it is the
  set of (identifiers of) tensors that gradients flowing into this tensor are propagated
  back to. Float scalars are modelled as real numbers.
\<close>

datatype 'a tensor = Tensor (shape: "nat list") (data: "'a list") (grad: "nat set")

definition well_shaped :: "'a tensor \<Rightarrow> bool" where
  "well_shaped t \<longleftrightarrow> length (data t) = prod_list (shape t)"

text \<open>The failures the array library raises, as values.\<close>

datatype error = ShapeMismatch | RankError | InvalidArgument

definition and_then :: "error + 'a \<Rightarrow> ('a \<Rightarrow> error + 'b) \<Rightarrow> error + 'b" where
  "and_then r f = (case r of Inl e \<Rightarrow> Inl e | Inr x \<Rightarrow> f x)"

subsection \<open>Flat buffers and axes\<close>

text \<open>\<open>blocks k n xs\<close> cuts the first \<open>k\<close> consecutive blocks of length \<open>n\<close> from a buffer.\<close>

fun blocks :: "nat \<Rightarrow> nat \<Rightarrow> 'a list \<Rightarrow> 'a list list" where
  "blocks 0 n xs = []"
| "blocks (Suc k) n xs = take n xs # blocks k n (drop n xs)"

text \<open>
  \<open>at_axis k ds f\<close> applies \<open>f\<close> to every sub-buffer that starts at axis \<open>k\<close> of a
  buffer of shape \<open>ds\<close>.
\<close>

fun at_axis :: "nat \<Rightarrow> nat list \<Rightarrow> ('a list \<Rightarrow> 'a list) \<Rightarrow> 'a list \<Rightarrow> 'a list" where
  "at_axis 0 ds f xs = f xs"
| "at_axis (Suc k) (d # ds) f xs = concat (map (at_axis k ds f) (blocks d (prod_list ds) xs))"
| "at_axis (Suc k) [] f xs = xs"

subsection \<open>The array library's operations\<close>

text \<open>\<^verbatim>\<open>tf.shape(t)\<close>.\<close>

definition tf_shape :: "'a tensor \<Rightarrow> nat list" where
  "tf_shape t = shape t"

text \<open>
  \<^verbatim>\<open>tf.pad(t, paddings)\<close> with constant zeros: \<open>paddings\<close> gives, for every axis, how
  many zeros go before and after it; it is rejected unless it has one row per axis.
\<close>

fun padded_shape :: "(nat \<times> nat) list \<Rightarrow> nat list \<Rightarrow> nat list" where
  "padded_shape ((a, b) # ps) (d # ds) = (a + d + b) # padded_shape ps ds"
| "padded_shape ps ds = ds"

fun pad_axes :: "(nat \<times> nat) list \<Rightarrow> nat list \<Rightarrow> 'a::zero list \<Rightarrow> 'a list" where
  "pad_axes ((a, b) # ps) (d # ds) xs =
     replicate (a * prod_list (padded_shape ps ds)) 0
     @ concat (map (pad_axes ps ds) (blocks d (prod_list ds) xs))
     @ replicate (b * prod_list (padded_shape ps ds)) 0"
| "pad_axes ps ds xs = xs"

definition tf_pad :: "'a::zero tensor \<Rightarrow> (nat \<times> nat) list \<Rightarrow> error + 'a tensor" where
  "tf_pad t paddings =
     (if length paddings = length (shape t)
      then Inr (Tensor (padded_shape paddings (shape t))
                       (pad_axes paddings (shape t) (data t)) (grad t))
      else Inl RankError)"

text \<open>
  \<^verbatim>\<open>tf.reshape(t, new_shape)\<close>: the flat buffer is kept and read with the new shape; the
  number of elements must agree.
\<close>

definition tf_reshape :: "'a tensor \<Rightarrow> nat list \<Rightarrow> error + 'a tensor" where
  "tf_reshape t new_shape =
     (if prod_list new_shape = prod_list (shape t)
      then Inr (Tensor new_shape (data t) (grad t))
      else Inl ShapeMismatch)"

text \<open>
  Slicing \<^verbatim>\<open>t[:, ..., :, start:]\<close> with \<open>axis\<close> full slices before the last one. A
  negative \<open>start\<close> counts from the end of the axis, and the start is clipped to the axis
  (Python's slice semantics, which the array library follows).
\<close>

definition slice_start :: "int \<Rightarrow> nat \<Rightarrow> nat" where
  "slice_start start n =
     (if start < 0 then nat (max 0 (int n + start)) else min (nat start) n)"

definition slice_from :: "nat \<Rightarrow> int \<Rightarrow> 'a tensor \<Rightarrow> error + 'a tensor" where
  "slice_from axis start t =
     (if axis < length (shape t)
      then (let s = slice_start start (shape t ! axis)
            in Inr (Tensor ((shape t)[axis := shape t ! axis - s])
                     (at_axis axis (shape t)
                        (drop (s * prod_list (drop (Suc axis) (shape t)))) (data t))
                     (grad t)))
      else Inl RankError)"

text \<open>
  \<^verbatim>\<open>tf.concat([a, b], axis)\<close>: the operands must have the same rank and agree on every
  dimension but \<open>axis\<close>; the result is differentiably connected to both.
\<close>

fun concat_axis :: "nat \<Rightarrow> nat list \<Rightarrow> nat list \<Rightarrow> 'a list \<Rightarrow> 'a list \<Rightarrow> 'a list" where
  "concat_axis 0 ds es xs ys = xs @ ys"
| "concat_axis (Suc k) (d # ds) (e # es) xs ys =
     concat (map2 (concat_axis k ds es) (blocks d (prod_list ds) xs) (blocks d (prod_list es) ys))"
| "concat_axis (Suc k) ds es xs ys = xs @ ys"

definition tf_concat :: "'a tensor \<Rightarrow> 'a tensor \<Rightarrow> nat \<Rightarrow> error + 'a tensor" where
  "tf_concat a b axis =
     (if length (shape a) \<noteq> length (shape b) \<or> \<not> axis < length (shape a) then Inl RankError
      else if (shape a)[axis := 0] \<noteq> (shape b)[axis := 0] then Inl ShapeMismatch
      else Inr (Tensor ((shape a)[axis := shape a ! axis + shape b ! axis])
                  (concat_axis axis (shape a) (shape b) (data a) (data b))
                  (grad a \<union> grad b)))"

text \<open>
  \<^verbatim>\<open>tf.stop_gradient(t)\<close>: the values of \<open>t\<close>, with no gradient propagated back through
  the result.
\<close>

definition tf_stop_gradient :: "'a tensor \<Rightarrow> 'a tensor" where
  "tf_stop_gradient t = Tensor (shape t) (data t) {}"

text \<open>\<^verbatim>\<open>tf.shape(t)[i]\<close>.\<close>

definition shape_at :: "'a tensor \<Rightarrow> nat \<Rightarrow> error + int" where
  "shape_at t i = (if i < length (shape t) then Inr (int (tf_shape t ! i)) else Inl RankError)"

text \<open>\<^verbatim>\<open>tf.ones(dims)\<close> and \<^verbatim>\<open>tf.zeros(dims)\<close>; a negative dimension is rejected.\<close>

definition tf_fill :: "int list \<Rightarrow> 'a \<Rightarrow> error + 'a tensor" where
  "tf_fill dims v =
     (if \<forall>d \<in> set dims. 0 \<le> d
      then Inr (Tensor (map nat dims) (replicate (prod_list (map nat dims)) v) {})
      else Inl InvalidArgument)"

definition tf_ones :: "int list \<Rightarrow> error + real tensor" where
  "tf_ones dims = tf_fill dims 1"

definition tf_zeros :: "int list \<Rightarrow> error + real tensor" where
  "tf_zeros dims = tf_fill dims 0"

text \<open>
  \<^verbatim>\<open>tf.linalg.band_part(t, num_lower, num_upper)\<close>: in every innermost matrix the entry
  at row \<open>m\<close>, column \<open>n\<close> is kept when
  \<open>(num_lower < 0 \<or> m - n \<le> num_lower) \<and> (num_upper < 0 \<or> n - m \<le> num_upper)\<close>
  and set to zero otherwise. The flat index \<open>p\<close> of an entry gives its column as
  \<open>p mod cols\<close> and its row as \<open>(p div cols) mod rows\<close>.
\<close>

definition in_band :: "int \<Rightarrow> int \<Rightarrow> nat \<Rightarrow> nat \<Rightarrow> bool" where
  "in_band num_lower num_upper m n \<longleftrightarrow>
     (num_lower < 0 \<or> int m - int n \<le> num_lower) \<and> (num_upper < 0 \<or> int n - int m \<le> num_upper)"

definition band_part :: "'a::zero tensor \<Rightarrow> int \<Rightarrow> int \<Rightarrow> error + 'a tensor" where
  "band_part t num_lower num_upper =
     (if length (shape t) < 2 then Inl RankError
      else (let rows = shape t ! (length (shape t) - 2);
                cols = shape t ! (length (shape t) - 1)
            in Inr (Tensor (shape t)
                     (map (\<lambda>(p, v). if in_band num_lower num_upper ((p div cols) mod rows) (p mod cols)
                                      then v else 0)
                          (enumerate 0 (data t)))
                     (grad t))))"

text \<open>
  Elementwise \<^verbatim>\<open>a - b\<close> for operands of the same shape (the only use in this program;
  broadcasting between different shapes is not modelled and is reported as a mismatch).
\<close>

definition tf_sub :: "'a::minus tensor \<Rightarrow> 'a tensor \<Rightarrow> error + 'a tensor" where
  "tf_sub a b =
     (if shape a = shape b
      then Inr (Tensor (shape a) (map2 (\<lambda>x y. x - y) (data a) (data b)) (grad a \<union> grad b))
      else Inl ShapeMismatch)"

text \<open>\<^verbatim>\<open>t[tf.newaxis, tf.newaxis, :, :]\<close>: two leading axes of size one; needs two axes.\<close>

definition newaxis2 :: "'a tensor \<Rightarrow> error + 'a tensor" where
  "newaxis2 t =
     (if length (shape t) < 2 then Inl RankError
      else Inr (Tensor (1 # 1 # shape t) (data t) (grad t)))"









section \<open>Positional encoding\<close>


section \<open>Look-ahead mask\<close>

text \<open>
  \<^verbatim>\<open>
  def get_look_ahead_mask(q_seq_len, m_seq_len):
    mask = tf.ones([q_seq_len, q_seq_len])
    mask_u = tf.linalg.band_part(mask, 0, -1)
    mask_dia = tf.linalg.band_part(mask, 0, 0)
    mask_pad = tf.zeros([q_seq_len, m_seq_len])
    look_ahead_mask = tf.concat([mask_pad, mask_u - mask_dia], 1)
    look_ahead_mask = look_ahead_mask[tf.newaxis, tf.newaxis, :, :]
    return look_ahead_mask
  \<close>
\<close>

definition get_look_ahead_mask :: "int \<Rightarrow> int \<Rightarrow> error + real tensor" where
  "get_look_ahead_mask q_seq_len m_seq_len =
     and_then (tf_ones [q_seq_len, q_seq_len]) (\<lambda>mask.
     and_then (band_part mask 0 (- 1)) (\<lambda>mask_u.
     and_then (band_part mask 0 0) (\<lambda>mask_dia.
     and_then (tf_zeros [q_seq_len, m_seq_len]) (\<lambda>mask_pad.
     and_then (tf_sub mask_u mask_dia) (\<lambda>strict_upper.
     and_then (tf_concat mask_pad strict_upper 1) (\<lambda>look_ahead_mask.
     newaxis2 look_ahead_mask))))))"

section \<open>Relative shift\<close>

text \<open>
  \<^verbatim>\<open>
  def rel_shift(inputs):
    shape = tf.shape(inputs)
    padded = tf.pad(inputs, [[0, 0], [0, 0], [0, 0], [1, 0]])
    reshaped = tf.reshape(padded, [shape[0], shape[1], shape[3] + 1, shape[2]])
    sliced = reshaped[:, :, 1:]
    outputs = tf.reshape(sliced, shape)
    return outputs
  \<close>
\<close>

definition rel_shift :: "'a::zero tensor \<Rightarrow> error + 'a tensor" where
  "rel_shift inputs =
     (let shp = tf_shape inputs in
      and_then (tf_pad inputs [(0, 0), (0, 0), (0, 0), (1, 0)]) (\<lambda>padded.
      and_then (tf_reshape padded [shp ! 0, shp ! 1, shp ! 3 + 1, shp ! 2]) (\<lambda>reshaped.
      and_then (slice_from 2 1 reshaped) (\<lambda>sliced.
      tf_reshape sliced shp))))"

section \<open>Memory cache\<close>

text \<open>
  \<^verbatim>\<open>
  def cache_memory(memory, embeddings, m_seq_len=None):
    if m_seq_len is None:
      m_seq_len = tf.shape(memory)[1]
    new_memory = tf.stop_gradient(
        tf.concat([memory, embeddings], axis=1)[:, -m_seq_len:])
    return new_memory
  \<close>
\<close>

definition cache_memory :: "'a tensor \<Rightarrow> 'a tensor \<Rightarrow> int option \<Rightarrow> error + 'a tensor" where
  "cache_memory memory embeddings m_seq_len =
     and_then (case m_seq_len of None \<Rightarrow> shape_at memory 1 | Some m \<Rightarrow> Inr m) (\<lambda>m.
     and_then (tf_concat memory embeddings 1) (\<lambda>joined.
     and_then (slice_from 1 (- m) joined) (\<lambda>sliced.
     Inr (tf_stop_gradient sliced))))"

section \<open>Reading the results\<close>

text \<open>
  The buffer of a \<open>q \<times> r\<close> matrix after a zero has been put in front of each of its rows.
\<close>

definition pad_rows :: "nat \<Rightarrow> nat \<Rightarrow> 'a::zero list \<Rightarrow> 'a list" where
  "pad_rows q r m = concat (map (\<lambda>row. 0 # row) (blocks q r m))"

text \<open>
  Reading a tensor of rank four: \<open>matrix_at t i j\<close> is the innermost matrix \<open>t[i, j]\<close> as the
  list of its rows, and \<open>at4 t i j k l\<close> the entry \<open>t[i, j, k, l]\<close> (row-major indexing).
\<close>

definition matrix_at :: "'a tensor \<Rightarrow> nat \<Rightarrow> nat \<Rightarrow> 'a list list" where
  "matrix_at t i j =
     (let h = shape t ! 1; q = shape t ! 2; r = shape t ! 3
      in blocks q r (drop ((i * h + j) * (q * r)) (data t)))"

definition at4 :: "'a tensor \<Rightarrow> nat \<Rightarrow> nat \<Rightarrow> nat \<Rightarrow> nat \<Rightarrow> 'a" where
  "at4 t i j k l =
     data t ! (((i * (shape t ! 1) + j) * (shape t ! 2) + k) * (shape t ! 3) + l)"

text \<open>
  The relative shift of one \<open>q \<times> r\<close> matrix as the specification words it: a zero column is
  put in front, the flat buffer is read as \<open>r + 1\<close> rows of length \<open>q\<close>, the first of these
  rows is dropped, and the rest is read as \<open>q\<close> rows of length \<open>r\<close> again.
\<close>

definition shift_spec :: "nat \<Rightarrow> nat \<Rightarrow> 'a::zero list list \<Rightarrow> 'a list list" where
  "shift_spec q r rows =
     blocks q r (concat (drop 1 (blocks (r + 1) q (concat (map (\<lambda>row. 0 # row) rows)))))"

text \<open>
  The buffer of the \<open>n \<times> n\<close> matrix that is one strictly above the diagonal and zero elsewhere.
\<close>

definition strict_upper :: "nat \<Rightarrow> real list" where
  "strict_upper n = map (\<lambda>p. if (p div n) mod n < p mod n then 1 else 0) [0..<n * n]"

text \<open>
  Reading a tensor of rank three: \<open>at3 t i k l\<close> is the entry \<open>t[i, k, l]\<close>. For a memory of
  shape \<open>[b, t1, h]\<close> and embeddings of shape \<open>[b, t2, h]\<close>, \<open>joined_at\<close> is the entry at batch
  \<open>i\<close>, time step \<open>k\<close>, feature \<open>l\<close> of the memory followed in time by the embeddings.
\<close>

definition at3 :: "'a tensor \<Rightarrow> nat \<Rightarrow> nat \<Rightarrow> nat \<Rightarrow> 'a" where
  "at3 t i k l = data t ! ((i * (shape t ! 1) + k) * (shape t ! 2) + l)"

definition joined_at :: "'a tensor \<Rightarrow> 'a tensor \<Rightarrow> nat \<Rightarrow> nat \<Rightarrow> nat \<Rightarrow> 'a" where
  "joined_at memory embeddings i k l =
     (if k < shape memory ! 1 then at3 memory i k l
      else at3 embeddings i (k - shape memory ! 1) l)"



section \<open>Blocks of a buffer and the relative shift\<close>

lemma length_blocks: "length (blocks k n xs) = k"
  by (induction k arbitrary: xs) auto

lemma blocks_concat:
  "length xss = k \<Longrightarrow> \<forall>xs \<in> set xss. length xs = n \<Longrightarrow> blocks k n (concat xss @ zs) = xss"
  by (induction xss arbitrary: k) auto

lemma concat_blocks: "concat (blocks k n xs) = take (k * n) xs"
proof (induction k arbitrary: xs)
  case 0
  then show ?case by simp
next
  case (Suc k)
  have "take n xs @ take (k * n) (drop n xs) = take (n + k * n) xs"
    by (simp add: take_add)
  with Suc show ?case by simp
qed

lemma nth_blocks: "i < k \<Longrightarrow> blocks k n xs ! i = take n (drop (i * n) xs)"
proof (induction k arbitrary: xs i)
  case 0
  then show ?case by simp
next
  case (Suc k)
  show ?case
  proof (cases i)
    case 0
    then show ?thesis by simp
  next
    case (Suc i')
    with Suc.prems have "i' < k" by simp
    from Suc.IH [OF this, of "drop n xs"] Suc show ?thesis by (simp add: add.commute)
  qed
qed

lemma length_block:
  "ys \<in> set (blocks k n xs) \<Longrightarrow> k * n \<le> length xs \<Longrightarrow> length ys = n"
  by (induction k arbitrary: xs) auto

lemma blocks_add: "blocks (a + c) n xs = blocks a n xs @ blocks c n (drop (a * n) xs)"
  by (induction a arbitrary: xs) (auto simp: add.commute)

lemma blocks_take: "k * n \<le> m \<Longrightarrow> blocks k n (take m xs) = blocks k n xs"
proof (induction k arbitrary: xs m)
  case 0
  then show ?case by simp
next
  case (Suc k)
  from Suc.prems have "k * n \<le> m - n" and "n \<le> m" by auto
  with Suc.IH [of "m - n" "drop n xs"] show ?case by (simp add: drop_take min_def)
qed

lemma blocks_append: "k * n \<le> length ys \<Longrightarrow> blocks k n (ys @ zs) = blocks k n ys"
  by (metis append_eq_conv_conj blocks_take order_refl take_all_iff take_append blocks_take)

lemma nth_concat_uniform:
  "\<forall>xs \<in> set xss. length xs = n \<Longrightarrow> i < length xss \<Longrightarrow> j < n \<Longrightarrow>
   concat xss ! (i * n + j) = xss ! i ! j"
proof (induction xss arbitrary: i)
  case Nil
  then show ?case by simp
next
  case (Cons xs xss)
  show ?case
  proof (cases i)
    case 0
    with Cons.prems show ?thesis by (simp add: nth_append)
  next
    case (Suc i')
    with Cons.prems have "concat xss ! (i' * n + j) = xss ! i' ! j"
      by (intro Cons.IH) auto
    with Cons.prems Suc show ?thesis by (simp add: nth_append add.assoc)
  qed
qed

lemma length_concat_uniform:
  "\<forall>xs \<in> set xss. length xs = n \<Longrightarrow> length (concat xss) = length xss * n"
  by (induction xss) auto

lemma drop_concat_uniform:
  "\<forall>xs \<in> set xss. length xs = n \<Longrightarrow> drop (i * n) (concat xss) = concat (drop i xss)"
proof (induction xss arbitrary: i)
  case Nil
  then show ?case by simp
next
  case (Cons xs xss)
  then show ?case by (cases i) auto
qed


lemma block_take_id: "ys \<in> set (blocks k n xs) \<Longrightarrow> take n ys = ys"
  by (induction k arbitrary: xs) auto

lemma pad_axes_Nil: "pad_axes [] ds = (\<lambda>xs. xs)"
  by (rule ext) simp

lemma pad_row: "pad_axes [(Suc 0, 0)] [r] = (\<lambda>row. 0 # take r row)"
  by (rule ext) (simp add: pad_axes_Nil concat_blocks)

lemma pad_matrix: "pad_axes [(0, 0), (Suc 0, 0)] [q, r] = pad_rows q r"
proof (rule ext)
  fix m :: "'a list"
  have "map (\<lambda>row. 0 # take r row) (blocks q r m) = map (\<lambda>row. 0 # row) (blocks q r m)"
    by (rule map_cong) (simp_all add: block_take_id)
  moreover have "pad_axes [(0, 0), (Suc 0, 0)] [q, r] m
                 = concat (map (\<lambda>row. 0 # take r row) (blocks q r m))"
    by (simp add: pad_row del: pad_axes.simps(1) add: pad_axes.simps(1) [of 0 0])
  ultimately show "pad_axes [(0, 0), (Suc 0, 0)] [q, r] m = pad_rows q r m"
    by (simp only: pad_rows_def)
qed

lemma concat_map_blocks:
  "concat (map (\<lambda>x. concat (map f (blocks h n x))) (blocks b (h * n) xs))
   = concat (map f (blocks (b * h) n xs))"
proof (induction b arbitrary: xs)
  case 0
  then show ?case by simp
next
  case (Suc b)
  have "blocks h n (take (h * n) xs) = blocks h n xs"
    by (rule blocks_take) simp
  with Suc show ?case by (simp add: blocks_add add.commute)
qed

lemma pad_cube:
  "pad_axes [(0, 0), (0, 0), (Suc 0, 0)] [h, q, r]
   = (\<lambda>x. concat (map (pad_rows q r) (blocks h (q * r) x)))"
  by (rule ext) (simp add: pad_matrix del: pad_axes.simps(1) add: pad_axes.simps(1) [of 0 0 "[_, _]"])

lemma pad_4d:
  "pad_axes [(0, 0), (0, 0), (0, 0), (Suc 0, 0)] [b, h, q, r] xs
   = concat (map (pad_rows q r) (blocks (b * h) (q * r) xs))"
proof -
  have "pad_axes [(0, 0), (0, 0), (0, 0), (Suc 0, 0)] [b, h, q, r] xs
        = concat (map (\<lambda>x. concat (map (pad_rows q r) (blocks h (q * r) x)))
                      (blocks b (h * (q * r)) xs))"
    by (simp add: pad_cube del: pad_axes.simps(1) add: pad_axes.simps(1) [of 0 0 "[_, _, _]"])
  then show ?thesis by (simp add: concat_map_blocks)
qed

lemma length_pad_rows: "length m = q * r \<Longrightarrow> length (pad_rows q r m) = q * Suc r"
proof -
  assume len: "length m = q * r"
  have "\<forall>ys \<in> set (map (\<lambda>row. 0 # row) (blocks q r m)). length ys = Suc r"
    using len by (auto dest: length_block)
  from length_concat_uniform [OF this] show ?thesis
    by (simp add: pad_rows_def length_blocks)
qed


lemma at_axis_0: "at_axis 0 ds f = f"
  by (rule ext) simp

lemma at_axis_1: "at_axis (Suc 0) (d # ds) f = (\<lambda>x. concat (map f (blocks d (prod_list ds) x)))"
  by (rule ext) (simp add: at_axis_0)

lemma at_axis_2:
  "at_axis 2 [b, h, n, k] f xs = concat (map f (blocks (b * h) (n * k) xs))"
  by (simp add: numeral_2_eq_2 at_axis_1 concat_map_blocks)

lemma slice_start_1: "slice_start 1 (Suc r) = 1"
  by (simp add: slice_start_def)

lemma blocks_pad_rows:
  assumes "length xs = b * h * (q * r)"
  shows "blocks (b * h) (Suc r * q) (concat (map (pad_rows q r) (blocks (b * h) (q * r) xs)))
         = map (pad_rows q r) (blocks (b * h) (q * r) xs)"
proof -
  have "\<forall>ys \<in> set (map (pad_rows q r) (blocks (b * h) (q * r) xs)). length ys = Suc r * q"
    using assms by (auto dest!: length_block simp: length_pad_rows)
  from blocks_concat [OF _ this, of "b * h" "[]"] show ?thesis
    by (simp add: length_blocks)
qed

lemma rel_shift_data:
  assumes "well_shaped x" and "shape x = [b, h, q, r]"
  shows "rel_shift x =
    Inr (Tensor [b, h, q, r]
          (concat (map (\<lambda>m. drop q (pad_rows q r m)) (blocks (b * h) (q * r) (data x))))
          (grad x))"
proof -
  from assms have len: "length (data x) = b * h * (q * r)"
    by (simp add: well_shaped_def mult.assoc)
  have pad: "tf_pad x [(0, 0), (0, 0), (0, 0), (1, 0)]
             = Inr (Tensor [b, h, q, Suc r]
                     (concat (map (pad_rows q r) (blocks (b * h) (q * r) (data x)))) (grad x))"
    using assms(2) by (simp add: tf_pad_def pad_4d del: pad_axes.simps)
  have slice: "slice_from 2 1 (Tensor [b, h, Suc r, q]
                 (concat (map (pad_rows q r) (blocks (b * h) (q * r) (data x)))) (grad x))
               = Inr (Tensor [b, h, r, q]
                  (concat (map (\<lambda>m. drop q (pad_rows q r m)) (blocks (b * h) (q * r) (data x))))
                  (grad x))"
  proof -
    have "at_axis 2 [b, h, Suc r, q] (drop q)
            (concat (map (pad_rows q r) (blocks (b * h) (q * r) (data x))))
          = concat (map (\<lambda>m. drop q (pad_rows q r m)) (blocks (b * h) (q * r) (data x)))"
      by (simp only: at_axis_2 blocks_pad_rows [OF len] map_map comp_def)
    then show ?thesis
      by (simp add: slice_from_def slice_start_1 del: at_axis.simps)
  qed
  have reshape1: "tf_reshape (Tensor [b, h, q, Suc r] d g) [b, h, Suc r, q]
                  = Inr (Tensor [b, h, Suc r, q] d g)" for d :: "'a list" and g
    by (simp add: tf_reshape_def)
  have reshape2: "tf_reshape (Tensor [b, h, r, q] d g) [b, h, q, r]
                  = Inr (Tensor [b, h, q, r] d g)" for d :: "'a list" and g
    by (simp add: tf_reshape_def)
  have idx: "[b, h, q, r] ! 0 = b" "[b, h, q, r] ! 1 = h" "[b, h, q, r] ! 3 + 1 = Suc r"
    "[b, h, q, r] ! 2 = q"
    by simp_all
  show ?thesis
    unfolding rel_shift_def Let_def tf_shape_def assms(2) idx pad and_then_def
    by (simp only: sum.case reshape1 slice reshape2)
qed


lemma index_bound: "i < b \<Longrightarrow> j < h \<Longrightarrow> i * h + j < b * (h::nat)"
proof -
  assume "i < b" and "j < h"
  then have "i * h + j < Suc i * h" and "Suc i * h \<le> b * h"
    by (simp, intro mult_le_mono1, simp)
  then show ?thesis by (rule less_le_trans)
qed

lemma matrix_at_blocks:
  assumes "shape t = [b, h, q, r]" and "i < b" and "j < h"
  shows "matrix_at t i j = blocks q r (blocks (b * h) (q * r) (data t) ! (i * h + j))"
  using assms by (simp add: matrix_at_def nth_blocks index_bound blocks_take)

lemma shift_spec_blocks:
  assumes "length m = q * r"
  shows "shift_spec q r (blocks q r m) = blocks q r (drop q (pad_rows q r m))"
proof -
  have "concat (drop 1 (blocks (r + 1) q (pad_rows q r m))) = drop q (pad_rows q r m)"
    using length_pad_rows [OF assms] by (simp add: concat_blocks mult.commute)
  then show ?thesis by (simp add: shift_spec_def pad_rows_def)
qed

lemma matrix_at_concat:
  assumes "shape t = [b, h, q, r]" and "data t = concat (map f xss)" and "length xss = b * h"
    and "\<forall>m \<in> set xss. length (f m) = q * r" and "i < b" and "j < h"
  shows "matrix_at t i j = blocks q r (f (xss ! (i * h + j)))"
proof -
  let ?k = "i * h + j"
  have k: "?k < length xss" using assms by (simp add: index_bound)
  have uniform: "\<forall>ys \<in> set (map f xss). length ys = q * r" using assms(4) by simp
  have "drop (?k * (q * r)) (data t) = concat (drop ?k (map f xss))"
    unfolding assms(2) by (rule drop_concat_uniform [OF uniform])
  also have "\<dots> = f (xss ! ?k) @ concat (drop (Suc ?k) (map f xss))"
    using k by (simp add: Cons_nth_drop_Suc [symmetric] drop_map)
  finally have "drop (?k * (q * r)) (data t) = f (xss ! ?k) @ concat (drop (Suc ?k) (map f xss))" .
  moreover have "length (f (xss ! ?k)) = q * r" using assms(4) k by simp
  ultimately show ?thesis
    using assms(1) by (simp add: matrix_at_def blocks_append)
qed

lemma rel_shift_matrix:
  assumes "well_shaped x" and "shape x = [b, h, q, r]" and "i < b" and "j < h"
  shows "\<exists>y. rel_shift x = Inr y \<and> shape y = [b, h, q, r] \<and> well_shaped y \<and>
             matrix_at y i j = shift_spec q r (matrix_at x i j)"
proof -
  let ?B = "blocks (b * h) (q * r) (data x)"
  let ?F = "\<lambda>m. drop q (pad_rows q r m)"
  let ?y = "Tensor [b, h, q, r] (concat (map ?F ?B)) (grad x)"
  from assms have len: "length (data x) = b * h * (q * r)"
    by (simp add: well_shaped_def mult.assoc)
  have block_len: "length m = q * r" if "m \<in> set ?B" for m
    using that len by (auto dest: length_block)
  have out_len: "\<forall>m \<in> set ?B. length (?F m) = q * r"
    by (simp add: block_len length_pad_rows)
  have k: "i * h + j < b * h" using assms by (simp add: index_bound)
  have "matrix_at ?y i j = blocks q r (?F (?B ! (i * h + j)))"
    by (rule matrix_at_concat [where b = b and xss = "?B"])
       (use out_len assms in \<open>simp_all add: length_blocks\<close>)
  also have "\<dots> = shift_spec q r (blocks q r (?B ! (i * h + j)))"
    using k by (simp add: shift_spec_blocks block_len length_blocks)
  also have "\<dots> = shift_spec q r (matrix_at x i j)"
    using assms by (simp add: matrix_at_blocks)
  finally have "matrix_at ?y i j = shift_spec q r (matrix_at x i j)" .
  moreover have "well_shaped ?y"
    using length_concat_uniform [of "map ?F ?B" "q * r"] out_len
    by (simp add: well_shaped_def length_blocks mult.assoc)
  ultimately show ?thesis
    using rel_shift_data [OF assms(1,2)] by simp
qed


text \<open>
  Claim C1. For every tensor of shape \<open>[b, h, q, r]\<close>, \<open>rel_shift\<close> returns a tensor of the same
  shape, and each innermost matrix of the result is the matrix of the input with a zero column
  put in front, its flat buffer read as \<open>r + 1\<close> rows of length \<open>q\<close>, the first such row
  dropped, and the rest read as \<open>q\<close> rows of length \<open>r\<close>. For the matrix
  \<open>[[0,1,2],[3,4,5],[6,7,8],[9,10,11]]\<close> (batch 1, one head) the result is
  \<open>[[0,3,4],[5,0,6],[7,8,0],[9,10,11]]\<close>.
\<close>

theorem rel_shift_spec:
  "(well_shaped x \<and> shape x = [b, h, q, r] \<longrightarrow>
      (\<exists>y. rel_shift x = Inr y \<and> shape y = [b, h, q, r] \<and> well_shaped y \<and>
           (\<forall>i<b. \<forall>j<h. matrix_at y i j = shift_spec q r (matrix_at x i j))))
   \<and> rel_shift (Tensor [1, 1, 4, 3] (concat [[0, 1, 2], [3, 4, 5], [6, 7, 8], [9, 10, 11 :: real]]) g)
       = Inr (Tensor [1, 1, 4, 3] (concat [[0, 3, 4], [5, 0, 6], [7, 8, 0], [9, 10, 11]]) g)"
proof (intro conjI impI)
  assume "well_shaped x \<and> shape x = [b, h, q, r]"
  then have x: "well_shaped x" "shape x = [b, h, q, r]" by simp_all
  from rel_shift_data [OF x] obtain y where y: "rel_shift x = Inr y" by simp
  have "matrix_at y i j = shift_spec q r (matrix_at x i j) \<and> shape y = [b, h, q, r] \<and> well_shaped y"
    if "i < b" and "j < h" for i j
    using rel_shift_matrix [OF x that] y by auto
  moreover have "shape y = [b, h, q, r] \<and> well_shaped y" if "b = 0 \<or> h = 0"
    using rel_shift_data [OF x] y that by (auto simp: well_shaped_def)
  ultimately show "\<exists>y. rel_shift x = Inr y \<and> shape y = [b, h, q, r] \<and> well_shaped y \<and>
           (\<forall>i<b. \<forall>j<h. matrix_at y i j = shift_spec q r (matrix_at x i j))"
    using y by (cases "b = 0 \<or> h = 0") auto
next
  let ?x = "Tensor [1, 1, 4, 3] (concat [[0, 1, 2], [3, 4, 5], [6, 7, 8], [9, 10, 11 :: real]]) g"
  have "well_shaped ?x" "shape ?x = [1, 1, 4, 3]" by (simp_all add: well_shaped_def)
  from rel_shift_data [OF this] show "rel_shift ?x
       = Inr (Tensor [1, 1, 4, 3] (concat [[0, 3, 4], [5, 0, 6], [7, 8, 0], [9, 10, 11]]) g)"
    by (simp add: pad_rows_def eval_nat_numeral)
qed

theorem rel_shift_spec_witness:
  "well_shaped (Tensor [2, 1, 2, 2] [1, 2, 3, 4, 5, 6, 7, 8 :: real] {})
   \<and> shape (Tensor [2, 1, 2, 2] [1, 2, 3, 4, 5, 6, 7, 8 :: real] {}) = [2, 1, 2, 2]
   \<and> (\<exists>y. rel_shift (Tensor [2, 1, 2, 2] [1, 2, 3, 4, 5, 6, 7, 8 :: real] {}) = Inr y
          \<and> shape y = [2, 1, 2, 2]
          \<and> matrix_at y 1 0 = shift_spec 2 2 [[5, 6], [7, 8]])
   \<and> shift_spec 2 2 [[5, 6], [7, 8 :: real]] = [[6, 0], [7, 8]]"
proof -
  let ?x = "Tensor [2, 1, 2, 2] [1, 2, 3, 4, 5, 6, 7, 8 :: real] {}"
  have x: "well_shaped ?x \<and> shape ?x = [2, 1, 2, 2]" by (simp add: well_shaped_def)
  have m: "matrix_at ?x 1 0 = [[5, 6], [7, 8]]"
    by (simp add: matrix_at_def eval_nat_numeral)
  have s: "shift_spec 2 2 [[5, 6], [7, 8 :: real]] = [[6, 0], [7, 8]]"
    by (simp add: shift_spec_def eval_nat_numeral)
  from rel_shift_spec [of ?x 2 1 2 2] x
  obtain y where y: "rel_shift ?x = Inr y" "shape y = [2, 1, 2, 2]"
    "\<forall>i<2. \<forall>j<1. matrix_at y i j = shift_spec 2 2 (matrix_at ?x i j)"
    by blast
  from y(3) have "matrix_at y 1 0 = shift_spec 2 2 (matrix_at ?x 1 0)" by simp
  with y(1,2) x m s show ?thesis by simp
qed

lemma pad_rows_nth:
  assumes "length m = q * r" and "a < q" and "c < r"
  shows "pad_rows q r m ! (a * Suc r + Suc c) = m ! (a * r + c)"
proof -
  have "\<forall>ys \<in> set (map (\<lambda>row. 0 # row) (blocks q r m)). length ys = Suc r"
    using assms(1) by (auto dest: length_block)
  from nth_concat_uniform [OF this, of a "Suc c"] assms
  have "pad_rows q r m ! (a * Suc r + Suc c) = blocks q r m ! a ! c"
    by (simp add: pad_rows_def length_blocks)
  also have "\<dots> = m ! (a * r + c)"
    using assms by (simp add: nth_blocks)
  finally show ?thesis .
qed

text \<open>
  Claim C10. For every tensor of shape \<open>[b, h, q, r]\<close> with \<open>q \<ge> 1\<close>, \<open>rel_shift\<close> leaves the
  last row of each innermost matrix as it was: the entries at \<open>[i, j, q - 1, c]\<close> of the
  result and of the input are the same.
\<close>

theorem rel_shift_last_row:
  assumes "well_shaped x" and "shape x = [b, h, q, r]" and "1 \<le> q" and "i < b" and "j < h" and "c < r"
  shows "\<exists>y. rel_shift x = Inr y \<and> at4 y i j (q - 1) c = at4 x i j (q - 1) c"
proof -
  let ?B = "blocks (b * h) (q * r) (data x)"
  let ?F = "\<lambda>m. drop q (pad_rows q r m)"
  let ?k = "i * h + j"
  let ?inner = "(q - 1) * r + c"
  from assms have len: "length (data x) = b * h * (q * r)"
    by (simp add: well_shaped_def mult.assoc)
  have k: "?k < b * h" using assms by (simp add: index_bound)
  have inner: "?inner < q * r" using index_bound [of "q - 1" q c r] assms by simp
  have block_len: "length m = q * r" if "m \<in> set ?B" for m
    using that len by (auto dest: length_block)
  have Bk: "?B ! ?k \<in> set ?B" using k by (simp add: length_blocks)
  have uniform: "\<forall>ys \<in> set (map ?F ?B). length ys = q * r"
    by (simp add: block_len length_pad_rows)
  have flat: "(?k * q + (q - Suc 0)) * r + c = ?k * (q * r) + ((q - Suc 0) * r + c)"
    by (simp add: algebra_simps)
  have shifted: "q + ?inner = (q - 1) * Suc r + Suc c"
    using assms(3) by (cases q) simp_all
  have "concat (map ?F ?B) ! (?k * (q * r) + ?inner) = map ?F ?B ! ?k ! ?inner"
    using k inner by (intro nth_concat_uniform [OF uniform]) (simp_all add: length_blocks)
  also have "\<dots> = pad_rows q r (?B ! ?k) ! (q + ?inner)"
    using k inner Bk by (simp add: length_blocks block_len length_pad_rows)
  also have "\<dots> = (?B ! ?k) ! ?inner"
    unfolding shifted using assms Bk by (intro pad_rows_nth) (simp_all add: block_len)
  also have "\<dots> = data x ! (?k * (q * r) + ?inner)"
  proof -
    from k have "?k * (q * r) \<le> b * h * (q * r)" by (intro mult_le_mono1) simp
    with k inner len show ?thesis by (simp add: nth_blocks)
  qed
  finally show ?thesis
    using rel_shift_data [OF assms(1,2)] assms(2) by (simp add: at4_def flat)
qed

theorem rel_shift_last_row_witness:
  "well_shaped (Tensor [1, 1, 2, 2] [1, 2, 3, 4 :: real] {})
   \<and> shape (Tensor [1, 1, 2, 2] [1, 2, 3, 4 :: real] {}) = [1, 1, 2, 2]
   \<and> (1 :: nat) \<le> 2 \<and> (0 :: nat) < 1 \<and> (1 :: nat) < 2
   \<and> (\<exists>y. rel_shift (Tensor [1, 1, 2, 2] [1, 2, 3, 4 :: real] {}) = Inr y
          \<and> at4 y 0 0 (2 - 1) 1 = 4)"
proof -
  let ?x = "Tensor [1, 1, 2, 2] [1, 2, 3, 4 :: real] {}"
  have x: "well_shaped ?x" "shape ?x = [1, 1, 2, 2]" by (simp_all add: well_shaped_def)
  have e: "at4 ?x 0 0 (2 - 1) 1 = 4" by (simp add: at4_def)
  from rel_shift_last_row [OF x, of 0 0 1] e x show ?thesis by simp
qed

section \<open>The look-ahead mask\<close>

lemma tf_fill_square:
  "0 \<le> q \<Longrightarrow> 0 \<le> m \<Longrightarrow>
   tf_fill [q, m] v = Inr (Tensor [nat q, nat m] (replicate (nat q * nat m) v) {})"
  by (simp add: tf_fill_def)

lemma band_part_ones:
  "band_part (Tensor [n, n] (replicate (n * n) (1 :: real)) g) lo hi
   = Inr (Tensor [n, n]
           (map (\<lambda>p. if in_band lo hi ((p div n) mod n) (p mod n) then 1 else 0) [0..<n * n]) g)"
proof -
  have "map (\<lambda>(p, v). if in_band lo hi ((p div n) mod n) (p mod n) then v else 0)
            (enumerate 0 (replicate (n * n) (1 :: real)))
        = map (\<lambda>p. if in_band lo hi ((p div n) mod n) (p mod n) then 1 else 0) [0..<n * n]"
    by (rule nth_equalityI) (simp_all add: nth_enumerate_eq)
  then show ?thesis by (simp add: band_part_def)
qed

lemma sub_bands:
  "tf_sub (Tensor [n, n]
             (map (\<lambda>p. if in_band 0 (- 1) ((p div n) mod n) (p mod n) then 1 else 0) [0..<n * n]) g)
          (Tensor [n, n]
             (map (\<lambda>p. if in_band 0 0 ((p div n) mod n) (p mod n) then 1 else 0) [0..<n * n]) g')
   = Inr (Tensor [n, n] (strict_upper n) (g \<union> g'))"
proof -
  have "(if in_band 0 (- 1) a c then 1 else 0) - (if in_band 0 0 a c then 1 else (0 :: real))
        = (if a < c then 1 else 0)" for a c
    by (auto simp: in_band_def)
  then show ?thesis
    by (simp add: tf_sub_def strict_upper_def map2_map_map)
qed

lemma concat_axis_0: "concat_axis 0 ds es = (\<lambda>xs ys. xs @ ys)"
  by (intro ext) simp

lemma concat_axis_1:
  "concat_axis (Suc 0) (d # ds) (e # es) xs ys
   = concat (map2 (\<lambda>x y. x @ y) (blocks d (prod_list ds) xs) (blocks d (prod_list es) ys))"
  by (simp add: concat_axis_0)

lemma look_ahead_mask_value:
  assumes "0 \<le> q" and "0 \<le> m"
  shows "get_look_ahead_mask q m =
    Inr (Tensor [1, 1, nat q, nat m + nat q]
          (concat (map2 (\<lambda>x y. x @ y) (blocks (nat q) (nat m) (replicate (nat q * nat m) 0))
                                   (blocks (nat q) (nat q) (strict_upper (nat q)))))
          {})"
  using assms
  by (simp add: get_look_ahead_mask_def tf_ones_def tf_zeros_def tf_fill_square and_then_def
      band_part_ones sub_bands tf_concat_def concat_axis_1 newaxis2_def
      del: concat_axis.simps)


lemma blocks_replicate: "blocks k n (replicate (k * n) v) = replicate k (replicate n v)"
proof (induction k)
  case 0
  then show ?case by simp
next
  case (Suc k)
  have "take n (replicate (n + k * n) v) = replicate n v"
    and "drop n (replicate (n + k * n) v) = replicate (k * n) v"
    by simp_all
  with Suc show ?case by simp
qed

lemma length_strict_upper: "length (strict_upper n) = n * n"
  by (simp add: strict_upper_def)

lemma strict_upper_nth:
  assumes "i < n" and "c < n"
  shows "strict_upper n ! (i * n + c) = (if i < c then 1 else 0)"
proof -
  from assms have "i * n + c < n * n" by (simp add: index_bound)
  moreover from assms have "(i * n + c) div n = i" and "(i * n + c) mod n = c" by simp_all
  ultimately show ?thesis using assms by (simp add: strict_upper_def)
qed

lemma mask_row:
  assumes "i < q"
  shows "map2 (\<lambda>x y. x @ y) (blocks q m (replicate (q * m) (0 :: real)))
                           (blocks q q (strict_upper q)) ! i
         = replicate m 0 @ take q (drop (i * q) (strict_upper q))"
  using assms by (simp add: blocks_replicate length_blocks nth_blocks)

lemma map2_appendE:
  assumes "zs \<in> set (map2 (\<lambda>x y. x @ y) xs ys)"
  obtains x y where "x \<in> set xs" and "y \<in> set ys" and "zs = x @ y"
  using assms by (auto elim: in_set_zipE)

lemma mask_rows_uniform:
  "\<forall>ys \<in> set (map2 (\<lambda>x y. x @ y) (blocks q m (replicate (q * m) (0 :: real)))
                                 (blocks q q (strict_upper q))). length ys = m + q"
proof
  fix ys
  assume "ys \<in> set (map2 (\<lambda>x y. x @ y) (blocks q m (replicate (q * m) (0 :: real)))
                                       (blocks q q (strict_upper q)))"
  then obtain x y where x: "x \<in> set (blocks q m (replicate (q * m) (0 :: real)))"
    and y: "y \<in> set (blocks q q (strict_upper q))" and ys: "ys = x @ y"
    by (rule map2_appendE)
  from x have "length x = m" by (rule length_block) simp
  moreover from y have "length y = q" by (rule length_block) (simp add: length_strict_upper)
  ultimately show "length ys = m + q" using ys by simp
qed

lemma mask_entry:
  assumes "i < q" and "k < m + q"
  shows "concat (map2 (\<lambda>x y. x @ y) (blocks q m (replicate (q * m) (0 :: real)))
                                   (blocks q q (strict_upper q))) ! (i * (m + q) + k)
         = (if k < m then 0 else if i < k - m then 1 else 0)"
proof -
  let ?rows = "map2 (\<lambda>x y. x @ y) (blocks q m (replicate (q * m) (0 :: real)))
                                  (blocks q q (strict_upper q))"
  let ?upper = "take q (drop (i * q) (strict_upper q))"
  have "concat ?rows ! (i * (m + q) + k) = ?rows ! i ! k"
    using assms by (intro nth_concat_uniform [OF mask_rows_uniform]) (simp_all add: length_blocks)
  also have "\<dots> = (replicate m 0 @ ?upper) ! k"
    using assms(1) by (simp only: mask_row)
  also have "\<dots> = (if k < m then 0 else if i < k - m then 1 else 0)"
  proof (cases "k < m")
    case True
    then show ?thesis by (simp add: nth_append)
  next
    case False
    with assms have c: "k - m < q" by simp
    from assms(1) have "i * q \<le> q * q" by simp
    with c have "?upper ! (k - m) = strict_upper q ! (i * q + (k - m))"
      by (simp add: length_strict_upper)
    also have "\<dots> = (if i < k - m then 1 else 0)"
      using assms(1) c by (rule strict_upper_nth)
    finally have "?upper ! (k - m) = (if i < k - m then 1 else 0)" .
    moreover have "(replicate m 0 @ ?upper) ! k = ?upper ! (k - m)"
      using False by (simp add: nth_append)
    ultimately show ?thesis using False by simp
  qed
  finally show ?thesis .
qed

lemma strict_upper_values: "set (strict_upper n) \<subseteq> {0, 1}"
  by (auto simp: strict_upper_def)

lemma set_block: "ys \<in> set (blocks k n xs) \<Longrightarrow> set ys \<subseteq> set xs"
proof (induction k arbitrary: xs)
  case 0
  then show ?case by simp
next
  case (Suc k)
  from Suc.prems consider "ys = take n xs" | "ys \<in> set (blocks k n (drop n xs))" by auto
  then show ?case
  proof cases
    case 1
    then show ?thesis by (simp add: set_take_subset)
  next
    case 2
    from Suc.IH [OF this] set_drop_subset [of n xs] show ?thesis by blast
  qed
qed

lemma mask_values:
  "set (concat (map2 (\<lambda>x y. x @ y) (blocks q m (replicate (q * m) (0 :: real)))
                                  (blocks q q (strict_upper q)))) \<subseteq> {0, 1}"
proof
  fix v
  assume "v \<in> set (concat (map2 (\<lambda>x y. x @ y) (blocks q m (replicate (q * m) (0 :: real)))
                                              (blocks q q (strict_upper q))))"
  then obtain ys where ys_in: "ys \<in> set (map2 (\<lambda>x y. x @ y) (blocks q m (replicate (q * m) (0 :: real)))
                                                     (blocks q q (strict_upper q)))"
    and v: "v \<in> set ys"
    unfolding set_concat by blast
  from ys_in obtain x y where x: "x \<in> set (blocks q m (replicate (q * m) (0 :: real)))"
    and y: "y \<in> set (blocks q q (strict_upper q))" and ys: "ys = x @ y"
    by (rule map2_appendE)
  from set_block [OF x] have "set x \<subseteq> {0, 1}" by auto
  moreover from set_block [OF y] strict_upper_values have "set y \<subseteq> {0, 1}" by blast
  ultimately show "v \<in> {0, 1}" using v ys by auto
qed


lemma look_ahead_mask_example:
  "get_look_ahead_mask 2 3
   = Inr (Tensor [1, 1, 2, 5] (concat [[0, 0, 0, 0, 1], [0, 0, 0, 0, 0]]) {})"
  by code_simp

text \<open>
  Claim C2. For non-negative \<open>q_seq_len\<close> and \<open>m_seq_len\<close>, \<open>get_look_ahead_mask\<close> returns a
  tensor of shape \<open>[1, 1, q_seq_len, m_seq_len + q_seq_len]\<close> whose values are 0 or 1, whose
  leftmost \<open>m_seq_len\<close> columns are 0, and whose rightmost square has a 1 at row \<open>i\<close>, column
  \<open>k\<close> exactly when \<open>i < k\<close>. For \<open>q_seq_len = 2\<close> and \<open>m_seq_len = 3\<close> the mask is
  \<open>[[0,0,0,0,1],[0,0,0,0,0]]\<close>.
\<close>

theorem look_ahead_mask_spec:
  "(0 \<le> q \<and> 0 \<le> m \<longrightarrow>
      (\<exists>y. get_look_ahead_mask q m = Inr y
          \<and> shape y = [1, 1, nat q, nat m + nat q] \<and> well_shaped y
          \<and> set (data y) \<subseteq> {0, 1}
          \<and> (\<forall>i<nat q. \<forall>k<nat m. at4 y 0 0 i k = 0)
          \<and> (\<forall>i<nat q. \<forall>k<nat q. at4 y 0 0 i (nat m + k) = (if i < k then 1 else 0))))
   \<and> get_look_ahead_mask 2 3
       = Inr (Tensor [1, 1, 2, 5] (concat [[0, 0, 0, 0, 1], [0, 0, 0, 0, 0]]) {})"
proof (intro conjI impI)
  assume "0 \<le> q \<and> 0 \<le> m"
  then have qm: "0 \<le> q" "0 \<le> m" by simp_all
  let ?rows = "map2 (\<lambda>x y. x @ y) (blocks (nat q) (nat m) (replicate (nat q * nat m) (0 :: real)))
                                  (blocks (nat q) (nat q) (strict_upper (nat q)))"
  let ?y = "Tensor [1, 1, nat q, nat m + nat q] (concat ?rows) {}"
  have val: "get_look_ahead_mask q m = Inr ?y"
    using qm by (rule look_ahead_mask_value)
  have "length (concat ?rows) = nat q * (nat m + nat q)"
    using length_concat_uniform [OF mask_rows_uniform, of "nat q" "nat m"]
    by (simp add: length_blocks)
  then have ws: "well_shaped ?y" by (simp add: well_shaped_def)
  have vals: "set (data ?y) \<subseteq> {0, 1}"
    using mask_values [of "nat q" "nat m"] by simp
  have left: "at4 ?y 0 0 i k = 0" if "i < nat q" and "k < nat m" for i k
    using mask_entry [of i "nat q" k "nat m"] that by (simp add: at4_def)
  have right: "at4 ?y 0 0 i (nat m + k) = (if i < k then 1 else 0)"
    if "i < nat q" and "k < nat q" for i k
    using mask_entry [of i "nat q" "nat m + k" "nat m"] that by (simp add: at4_def)
  show "\<exists>y. get_look_ahead_mask q m = Inr y
          \<and> shape y = [1, 1, nat q, nat m + nat q] \<and> well_shaped y
          \<and> set (data y) \<subseteq> {0, 1}
          \<and> (\<forall>i<nat q. \<forall>k<nat m. at4 y 0 0 i k = 0)
          \<and> (\<forall>i<nat q. \<forall>k<nat q. at4 y 0 0 i (nat m + k) = (if i < k then 1 else 0))"
    using val ws vals left right by (intro exI [of _ ?y]) simp
next
  show "get_look_ahead_mask 2 3
       = Inr (Tensor [1, 1, 2, 5] (concat [[0, 0, 0, 0, 1], [0, 0, 0, 0, 0]]) {})"
    by (rule look_ahead_mask_example)
qed

theorem look_ahead_mask_spec_witness:
  "(0 :: int) \<le> 3 \<and> (0 :: int) \<le> 1
   \<and> (\<exists>y. get_look_ahead_mask 3 1 = Inr y \<and> shape y = [1, 1, 3, 4] \<and> well_shaped y
          \<and> at4 y 0 0 1 0 = 0 \<and> at4 y 0 0 1 (1 + 1) = 0 \<and> at4 y 0 0 1 (1 + 2) = 1)"
proof -
  from look_ahead_mask_spec [of 3 1]
  obtain y where y: "get_look_ahead_mask 3 1 = Inr y" "shape y = [1, 1, nat 3, nat 1 + nat 3]"
    "well_shaped y" "\<forall>i<nat 3. \<forall>k<nat 1. at4 y 0 0 i k = 0"
    "\<forall>i<nat 3. \<forall>k<nat 3. at4 y 0 0 i (nat 1 + k) = (if i < k then 1 else 0)"
    by auto
  from y(4) have "at4 y 0 0 1 0 = 0" by simp
  moreover from y(5) have "at4 y 0 0 1 (1 + 1) = 0" "at4 y 0 0 1 (1 + 2) = 1" by simp_all
  ultimately show ?thesis using y(1-3) by simp
qed

section \<open>The memory cache\<close>

lemma at_axis_1_3d:
  "at_axis 1 [b, n, h] f xs = concat (map f (blocks b (n * h) xs))"
  by (simp add: at_axis_1)

lemma joined_rows_uniform:
  assumes "length xs = b * (t1 * h)" and "length ys = b * (t2 * h)"
  shows "\<forall>zs \<in> set (map2 (\<lambda>x y. x @ y) (blocks b (t1 * h) xs) (blocks b (t2 * h) ys)).
           length zs = (t1 + t2) * h"
proof
  fix zs
  assume "zs \<in> set (map2 (\<lambda>x y. x @ y) (blocks b (t1 * h) xs) (blocks b (t2 * h) ys))"
  then obtain x y where x: "x \<in> set (blocks b (t1 * h) xs)"
    and y: "y \<in> set (blocks b (t2 * h) ys)" and zs: "zs = x @ y"
    by (rule map2_appendE)
  from x assms(1) have "length x = t1 * h" by (auto dest: length_block)
  moreover from y assms(2) have "length y = t2 * h" by (auto dest: length_block)
  ultimately show "length zs = (t1 + t2) * h" using zs by (simp add: algebra_simps)
qed

lemma cache_memory_value:
  assumes "well_shaped memory" and "shape memory = [b, t1, h]"
    and "well_shaped embeddings" and "shape embeddings = [b, t2, h]"
  shows "cache_memory memory embeddings (Some m) =
    Inr (Tensor [b, t1 + t2 - slice_start (- m) (t1 + t2), h]
          (concat (map (drop (slice_start (- m) (t1 + t2) * h))
                       (map2 (\<lambda>x y. x @ y) (blocks b (t1 * h) (data memory))
                                             (blocks b (t2 * h) (data embeddings)))))
          {})"
proof -
  let ?rows = "map2 (\<lambda>x y. x @ y) (blocks b (t1 * h) (data memory))
                                  (blocks b (t2 * h) (data embeddings))"
  from assms have len: "length (data memory) = b * (t1 * h)"
    "length (data embeddings) = b * (t2 * h)"
    by (simp_all add: well_shaped_def)
  have joined: "tf_concat memory embeddings 1
                = Inr (Tensor [b, t1 + t2, h] (concat ?rows) (grad memory \<union> grad embeddings))"
    using assms(2,4) by (simp add: tf_concat_def concat_axis_1 del: concat_axis.simps)
  have "blocks b ((t1 + t2) * h) (concat ?rows @ []) = ?rows"
    by (rule blocks_concat [OF _ joined_rows_uniform [OF len]]) (simp add: length_blocks)
  then have "at_axis 1 [b, t1 + t2, h] f (concat ?rows) = concat (map f ?rows)" for f
    by (simp only: at_axis_1_3d append_Nil2)
  then have "slice_from 1 (- m) (Tensor [b, t1 + t2, h] (concat ?rows) g)
        = Inr (Tensor [b, t1 + t2 - slice_start (- m) (t1 + t2), h]
                (concat (map (drop (slice_start (- m) (t1 + t2) * h)) ?rows)) g)" for g
    by (simp add: slice_from_def Let_def del: at_axis.simps)
  with joined show ?thesis
    by (simp add: cache_memory_def and_then_def tf_stop_gradient_def)
qed


lemma block_entry:
  assumes "length xs = b * (t * h)" and "i < b" and "k < t" and "l < h"
  shows "blocks b (t * h) xs ! i ! (k * h + l) = xs ! ((i * t + k) * h + l)"
proof -
  from assms(3,4) have inner: "k * h + l < t * h" by (rule index_bound)
  from assms(2) have "i * (t * h) \<le> b * (t * h)" by (intro mult_le_mono1) simp
  with assms(1) have "i * (t * h) \<le> length xs" by simp
  then have "blocks b (t * h) xs ! i ! (k * h + l) = xs ! (i * (t * h) + (k * h + l))"
    using assms(2) inner by (simp add: nth_blocks)
  also have "i * (t * h) + (k * h + l) = (i * t + k) * h + l"
    by (simp add: algebra_simps)
  finally show ?thesis .
qed

lemma cache_memory_entry:
  assumes "well_shaped memory" and "shape memory = [b, t1, h]"
    and "well_shaped embeddings" and "shape embeddings = [b, t2, h]"
    and "s \<le> t1 + t2" and "i < b" and "k < t1 + t2 - s" and "l < h"
  shows "at3 (Tensor [b, t1 + t2 - s, h]
               (concat (map (drop (s * h))
                  (map2 (\<lambda>x y. x @ y) (blocks b (t1 * h) (data memory))
                                        (blocks b (t2 * h) (data embeddings)))))
               g) i k l
         = joined_at memory embeddings i (s + k) l"
proof -
  let ?rows = "map2 (\<lambda>x y. x @ y) (blocks b (t1 * h) (data memory))
                                  (blocks b (t2 * h) (data embeddings))"
  let ?n = "t1 + t2"
  from assms have len: "length (data memory) = b * (t1 * h)"
    "length (data embeddings) = b * (t2 * h)"
    by (simp_all add: well_shaped_def)
  note rows = joined_rows_uniform [OF len]
  have uniform: "\<forall>zs \<in> set (map (drop (s * h)) ?rows). length zs = (?n - s) * h"
    using rows by (simp add: diff_mult_distrib)
  have inner: "k * h + l < (?n - s) * h" using assms(7,8) by (rule index_bound)
  have row_i: "?rows ! i = blocks b (t1 * h) (data memory) ! i
                           @ blocks b (t2 * h) (data embeddings) ! i"
    using assms(6) by (simp add: length_blocks)
  have len_i: "length (blocks b (t1 * h) (data memory) ! i) = t1 * h"
    using assms(6) len(1) by (intro length_block [of _ b _ "data memory"]) (simp_all add: length_blocks)
  have len_i': "length (blocks b (t2 * h) (data embeddings) ! i) = t2 * h"
    using assms(6) len(2)
    by (intro length_block [of _ b _ "data embeddings"]) (simp_all add: length_blocks)
  have "length (?rows ! i) = ?n * h"
    unfolding row_i by (simp add: len_i len_i' add_mult_distrib)
  moreover from assms(5) have "s * h \<le> ?n * h" by (intro mult_le_mono1)
  ultimately have in_row: "s * h \<le> length (?rows ! i)" by simp
  have "at3 (Tensor [b, ?n - s, h] (concat (map (drop (s * h)) ?rows)) g) i k l
        = concat (map (drop (s * h)) ?rows) ! ((i * (?n - s) + k) * h + l)"
    by (simp add: at3_def)
  also have "(i * (?n - s) + k) * h + l = i * ((?n - s) * h) + (k * h + l)"
    by (simp add: algebra_simps)
  also have "concat (map (drop (s * h)) ?rows) ! (i * ((?n - s) * h) + (k * h + l))
        = map (drop (s * h)) ?rows ! i ! (k * h + l)"
    using assms(6) inner by (intro nth_concat_uniform [OF uniform]) (simp_all add: length_blocks)
  also have "\<dots> = ?rows ! i ! (s * h + (k * h + l))"
    using assms(6) in_row by (simp add: length_blocks del: nth_zip)
  also have "s * h + (k * h + l) = (s + k) * h + l"
    by (simp add: algebra_simps)
  also have "?rows ! i ! ((s + k) * h + l) = joined_at memory embeddings i (s + k) l"
  proof (cases "s + k < t1")
    case True
    from True assms(8) have "(s + k) * h + l < t1 * h" by (rule index_bound)
    then have "?rows ! i ! ((s + k) * h + l)
               = blocks b (t1 * h) (data memory) ! i ! ((s + k) * h + l)"
      unfolding row_i by (simp add: nth_append len_i)
    also have "\<dots> = data memory ! ((i * t1 + (s + k)) * h + l)"
      using len(1) assms(6) True assms(8) by (rule block_entry)
    finally show ?thesis using True assms(2) by (simp add: joined_at_def at3_def)
  next
    case False
    then have split: "(s + k) * h + l - t1 * h = (s + k - t1) * h + l"
      by (simp add: diff_mult_distrib)
    from False have "\<not> (s + k) * h + l < t1 * h"
      by (metis add_lessD1 mult_less_cancel2)
    then have "?rows ! i ! ((s + k) * h + l)
               = blocks b (t2 * h) (data embeddings) ! i ! ((s + k - t1) * h + l)"
      unfolding row_i by (simp add: nth_append len_i split)
    also have "\<dots> = data embeddings ! ((i * t2 + (s + k - t1)) * h + l)"
      using len(2) assms(6) _ assms(8) by (rule block_entry) (use False assms(7) in simp)
    finally show ?thesis using False assms(2,4) by (simp add: joined_at_def at3_def)
  qed
  finally show ?thesis .
qed


lemma slice_start_le: "slice_start i n \<le> n"
  by (auto simp: slice_start_def max_def nat_le_iff)

lemma cache_memory_result:
  assumes "well_shaped memory" and "shape memory = [b, t1, h]"
    and "well_shaped embeddings" and "shape embeddings = [b, t2, h]"
    and "s = slice_start (- m) (t1 + t2)"
  shows "\<exists>y. cache_memory memory embeddings (Some m) = Inr y
           \<and> shape y = [b, t1 + t2 - s, h] \<and> well_shaped y
           \<and> (\<forall>i<b. \<forall>k<t1 + t2 - s. \<forall>l<h.
                 at3 y i k l = joined_at memory embeddings i (s + k) l)"
proof -
  let ?rows = "map2 (\<lambda>x y. x @ y) (blocks b (t1 * h) (data memory))
                                  (blocks b (t2 * h) (data embeddings))"
  let ?y = "Tensor [b, t1 + t2 - s, h] (concat (map (drop (s * h)) ?rows)) {}"
  from assms have len: "length (data memory) = b * (t1 * h)"
    "length (data embeddings) = b * (t2 * h)"
    by (simp_all add: well_shaped_def)
  have s: "s \<le> t1 + t2" unfolding assms(5) by (rule slice_start_le)
  have val: "cache_memory memory embeddings (Some m) = Inr ?y"
    unfolding assms(5) using assms(1-4) by (rule cache_memory_value)
  have "\<forall>zs \<in> set (map (drop (s * h)) ?rows). length zs = (t1 + t2 - s) * h"
    using joined_rows_uniform [OF len] by (simp add: diff_mult_distrib)
  from length_concat_uniform [OF this] have ws: "well_shaped ?y"
    by (simp add: well_shaped_def length_blocks)
  have "at3 ?y i k l = joined_at memory embeddings i (s + k) l"
    if "i < b" and "k < t1 + t2 - s" and "l < h" for i k l
    using assms(1-4) s that by (rule cache_memory_entry)
  with val ws show ?thesis by (intro exI [of _ ?y]) simp
qed

lemma cache_memory_last_steps:
  assumes "well_shaped memory" and "shape memory = [b, t1, h]"
    and "well_shaped embeddings" and "shape embeddings = [b, t2, h]"
    and "1 \<le> m" and "m \<le> int (t1 + t2)"
  shows "\<exists>y. cache_memory memory embeddings (Some m) = Inr y
           \<and> shape y = [b, nat m, h] \<and> well_shaped y
           \<and> (\<forall>i<b. \<forall>k<nat m. \<forall>l<h.
                 at3 y i k l = joined_at memory embeddings i (t1 + t2 - nat m + k) l)"
proof -
  from assms(5,6) have "t1 + t2 - nat m = slice_start (- m) (t1 + t2)"
    and "t1 + t2 - (t1 + t2 - nat m) = nat m"
    by (simp_all add: slice_start_def nat_diff_distrib)
  with cache_memory_result [OF assms(1-4), of "t1 + t2 - nat m" m] show ?thesis by simp
qed

lemma cache_memory_example:
  "cache_memory (Tensor [1, 5, 1] [1, 2, 3, 4, 5 :: real] {1}) (Tensor [1, 2, 1] [6, 7] {2}) (Some 4)
   = Inr (Tensor [1, 4, 1] [4, 5, 6, 7] {})"
  by code_simp

text \<open>
  Claim C3. The claim asks, for every \<open>m_seq_len\<close> from 0 to the joined time length, for a
  result with \<open>m_seq_len\<close> time steps: the last \<open>m_seq_len\<close> steps of the memory followed by
  the embeddings. Lemma \<open>cache_memory_last_steps\<close> shows this for \<open>1 \<le> m_seq_len\<close>. For
  \<open>m_seq_len = 0\<close> the function does not return zero time steps: with a memory and embeddings
  of one time step each it returns both steps.
\<close>

theorem cache_memory_zero_steps_example:
  "cache_memory (Tensor [1, 1, 1] [1 :: real] {}) (Tensor [1, 1, 1] [2] {}) (Some 0)
   = Inr (Tensor [1, 2, 1] [1, 2] {})"
  by code_simp

text \<open>
  Claim C5. When \<open>m_seq_len\<close> is larger than the joined time length \<open>t1 + t2\<close>,
  \<open>cache_memory\<close> does not fail: it returns the whole of the memory followed by the embeddings,
  of time length \<open>t1 + t2\<close>.
\<close>

theorem cache_memory_clips:
  assumes "well_shaped memory" and "shape memory = [b, t1, h]"
    and "well_shaped embeddings" and "shape embeddings = [b, t2, h]"
    and "int (t1 + t2) < m"
  shows "\<exists>y. cache_memory memory embeddings (Some m) = Inr y
           \<and> shape y = [b, t1 + t2, h] \<and> well_shaped y
           \<and> (\<forall>i<b. \<forall>k<t1 + t2. \<forall>l<h. at3 y i k l = joined_at memory embeddings i k l)"
proof -
  from assms(5) have "0 = slice_start (- m) (t1 + t2)"
    by (simp add: slice_start_def)
  from cache_memory_result [OF assms(1-4) this] show ?thesis by simp
qed

theorem cache_memory_clips_witness:
  "well_shaped (Tensor [1, 1, 2] [1, 2 :: real] {}) \<and> well_shaped (Tensor [1, 1, 2] [3, 4 :: real] {})
   \<and> int (1 + 1) < 5
   \<and> (\<exists>y. cache_memory (Tensor [1, 1, 2] [1, 2 :: real] {}) (Tensor [1, 1, 2] [3, 4] {}) (Some 5)
            = Inr y
          \<and> shape y = [1, 2, 2] \<and> at3 y 0 0 1 = 2 \<and> at3 y 0 1 0 = 3)"
proof -
  let ?m = "Tensor [1, 1, 2] [1, 2 :: real] {}"
  let ?e = "Tensor [1, 1, 2] [3, 4 :: real] {}"
  have ws: "well_shaped ?m" "well_shaped ?e" by (simp_all add: well_shaped_def)
  have sh: "shape ?m = [1, 1, 2]" "shape ?e = [1, 1, 2]" by simp_all
  have m: "int (1 + 1) < 5" by simp
  from cache_memory_clips [OF ws(1) sh(1) ws(2) sh(2) m]
  obtain y where y: "cache_memory ?m ?e (Some 5) = Inr y" "shape y = [1, 1 + 1, 2]"
    "\<forall>i<1. \<forall>k<1 + 1. \<forall>l<2. at3 y i k l = joined_at ?m ?e i k l"
    by blast
  from y(3) have "at3 y 0 0 1 = joined_at ?m ?e 0 0 1" "at3 y 0 1 0 = joined_at ?m ?e 0 1 0"
    by simp_all
  then have "at3 y 0 0 1 = 2" "at3 y 0 1 0 = 3"
    by (simp_all add: joined_at_def at3_def)
  with y(1,2) ws m show ?thesis by simp
qed

text \<open>
  Claim C9. With \<open>m_seq_len = 0\<close>, \<open>cache_memory\<close> returns the whole of the memory followed by
  the embeddings, of time length \<open>t1 + t2\<close>, not an empty tensor: the slice from \<open>-0\<close> is the
  slice from index 0.
\<close>

theorem cache_memory_zero:
  assumes "well_shaped memory" and "shape memory = [b, t1, h]"
    and "well_shaped embeddings" and "shape embeddings = [b, t2, h]"
  shows "\<exists>y. cache_memory memory embeddings (Some 0) = Inr y
           \<and> shape y = [b, t1 + t2, h] \<and> well_shaped y
           \<and> (\<forall>i<b. \<forall>k<t1 + t2. \<forall>l<h. at3 y i k l = joined_at memory embeddings i k l)"
proof -
  have "0 = slice_start (- 0) (t1 + t2)"
    by (simp add: slice_start_def)
  from cache_memory_result [OF assms(1-4) this] show ?thesis by simp
qed

theorem cache_memory_zero_witness:
  "well_shaped (Tensor [1, 2, 1] [1, 2 :: real] {}) \<and> well_shaped (Tensor [1, 1, 1] [3 :: real] {})
   \<and> (\<exists>y. cache_memory (Tensor [1, 2, 1] [1, 2 :: real] {}) (Tensor [1, 1, 1] [3] {}) (Some 0)
            = Inr y
          \<and> shape y = [1, 3, 1] \<and> at3 y 0 0 0 = 1 \<and> at3 y 0 2 0 = 3)"
proof -
  let ?m = "Tensor [1, 2, 1] [1, 2 :: real] {}"
  let ?e = "Tensor [1, 1, 1] [3 :: real] {}"
  have ws: "well_shaped ?m" "well_shaped ?e" by (simp_all add: well_shaped_def)
  have sh: "shape ?m = [1, 2, 1]" "shape ?e = [1, 1, 1]" by simp_all
  from cache_memory_zero [OF ws(1) sh(1) ws(2) sh(2)]
  obtain y where y: "cache_memory ?m ?e (Some 0) = Inr y" "shape y = [1, 2 + 1, 1]"
    "\<forall>i<1. \<forall>k<2 + 1. \<forall>l<1. at3 y i k l = joined_at ?m ?e i k l"
    by blast
  from y(3) have "at3 y 0 0 0 = joined_at ?m ?e 0 0 0" "at3 y 0 2 0 = joined_at ?m ?e 0 2 0"
    by simp_all
  then have "at3 y 0 0 0 = 1" "at3 y 0 2 0 = 3"
    by (simp_all add: joined_at_def at3_def)
  with y(1,2) ws show ?thesis by simp
qed

lemma concat_keeps_gradient:
  "tf_concat a b axis = Inr c \<Longrightarrow> grad c = grad a \<union> grad b"
  by (auto simp: tf_concat_def split: if_splits)

lemma slice_keeps_gradient:
  "slice_from axis start t = Inr u \<Longrightarrow> grad u = grad t"
  by (auto simp: slice_from_def Let_def split: if_splits)

text \<open>
  Claim C8. Whatever the inputs, a tensor returned by \<open>cache_memory\<close> propagates no gradient
  back: its set of gradient sources is empty, while the joined and sliced tensor inside still
  carries the sources of the memory and of the embeddings (lemmas \<open>concat_keeps_gradient\<close>
  and \<open>slice_keeps_gradient\<close>).
\<close>

theorem cache_memory_detached:
  "cache_memory memory embeddings m_seq_len = Inr y \<Longrightarrow> grad y = {}"
  by (auto simp: cache_memory_def and_then_def tf_stop_gradient_def split: sum.splits)

theorem cache_memory_detached_witness:
  "cache_memory (Tensor [1, 1, 1] [1 :: real] {1}) (Tensor [1, 1, 1] [2] {2}) (Some 1)
     = Inr (Tensor [1, 1, 1] [2] {})
   \<and> grad (Tensor [1, 1, 1] [2 :: real] {}) = {}"
proof -
  have "cache_memory (Tensor [1, 1, 1] [1 :: real] {1}) (Tensor [1, 1, 1] [2] {2}) (Some 1)
        = Inr (Tensor [1, 1, 1] [2] {})"
    by code_simp
  with cache_memory_detached [OF this] show ?thesis by simp
qed

section \<open>The positional encoding\<close>





















end
